theory Spec2Isabelle
  imports Complex_Main "HOL-Library.Multiset"
begin

section \<open>Indian Poker competition: data model\<close>

text \<open>
  The embedding follows \<^verbatim>\<open>src/IndianPokerCompetition.py\<close>. Python integers are
  unbounded, so every card, chip count and bet is an \<^typ>\<open>int\<close>. The point values
  0.0, 0.5 and 1.0 returned by a game are exactly representable floats and are modelled
  as \<^typ>\<open>real\<close>.
\<close>

datatype RoundResult = A_WIN | DRAW | B_WIN

record VisibleState =
  common_card_1 :: int
  common_card_2 :: int
  other_players_card :: int
  own_chips :: int
  others_chips :: int
  own_current_bet :: int
  others_current_bet :: int
  other_played :: bool

text \<open>
  An agent is an object with a \<^verbatim>\<open>play\<close> method that may read and change state of its
  own. The state of everything outside the game (both agents, which may even be one and
  the same object) is a value of type \<open>'w\<close> that every call of \<^verbatim>\<open>play\<close> receives and
  returns.
\<close>

type_synonym 'w IPAgent = "VisibleState \<Rightarrow> 'w \<Rightarrow> int \<times> 'w"

text \<open>
  The fields of \<^verbatim>\<open>IPGame\<close>. The two agents are passed to the functions below as
  arguments. The generator \<^verbatim>\<open>random.Random\<close> belongs to the Python standard library:
  its state is a value of type \<open>'r\<close>, and its constructor and the call
  \<^verbatim>\<open>rng.sample(deck, 4)\<close> are parameters of the model.
\<close>

record 'r IPGame =
  seed :: int
  blind :: int
  a_chips :: int
  b_chips :: int
  max_length :: int
  deck :: "int list"
  a_first :: bool
  rng :: 'r

text \<open>The four cards dealt in a round.\<close>

record Cards =
  a_card :: int
  b_card :: int
  common1 :: int
  common2 :: int

type_synonym 'r sampler = "'r \<Rightarrow> int list \<Rightarrow> Cards \<times> 'r"

text \<open>The local variables of \<^verbatim>\<open>playRound\<close> that the betting loop updates.\<close>

record RoundState =
  a_bet :: int
  b_bet :: int
  current_bet :: int
  a_can_raise :: bool
  b_can_raise :: bool
  a_turn :: bool

text \<open>\<^verbatim>\<open>IPGame.__init__\<close>; the defaults are 20 chips, blind 1, 100000 rounds.\<close>

definition IPGame_init ::
  "(int \<Rightarrow> 'r) \<Rightarrow> int \<Rightarrow> bool \<Rightarrow> int \<Rightarrow> int \<Rightarrow> int \<Rightarrow> 'r IPGame" where
  "IPGame_init Random sd first starting_chips bl max_len =
     \<lparr>seed = sd, blind = bl, a_chips = starting_chips, b_chips = starting_chips,
      max_length = max_len,
      deck = concat (map (\<lambda>i. replicate 4 i) [1..10]),
      a_first = first, rng = Random sd\<rparr>"

section \<open>The scorer\<close>

definition calculateScore :: "int \<Rightarrow> int \<Rightarrow> int \<Rightarrow> int" where
  "calculateScore crd c1 c2 =
     (let straight = sort [crd, c1, c2] in
      if straight = [1, 9, 10] then 21
      else if straight = [1, 2, 10] then 22
      else if straight ! 1 = (straight ! 0) mod 10 + 1 \<and>
              straight ! 2 = (straight ! 1) mod 10 + 1 then 20 + straight ! 2
      else if crd = c1 \<and> c1 = c2 then 20 + crd
      else if crd = c1 \<or> crd = c2 then 10 + crd
      else crd)"

definition showdown :: "int \<Rightarrow> int \<Rightarrow> int \<Rightarrow> int \<Rightarrow> RoundResult" where
  "showdown ac bc c1 c2 =
     (let score_a = calculateScore ac c1 c2;
          score_b = calculateScore bc c1 c2
      in if score_a = score_b then DRAW
         else if score_a > score_b then A_WIN
         else B_WIN)"

section \<open>One round\<close>

text \<open>The snapshot built for the side whose turn it is.\<close>

definition visible_state :: "int \<Rightarrow> int \<Rightarrow> Cards \<Rightarrow> RoundState \<Rightarrow> VisibleState" where
  "visible_state achips bchips cards rs =
     (if a_turn rs then
        \<lparr>common_card_1 = common1 cards, common_card_2 = common2 cards,
         other_players_card = b_card cards,
         own_chips = achips, others_chips = bchips,
         own_current_bet = a_bet rs, others_current_bet = b_bet rs,
         other_played = (\<not> b_can_raise rs)\<rparr>
      else
        \<lparr>common_card_1 = common1 cards, common_card_2 = common2 cards,
         other_players_card = a_card cards,
         own_chips = bchips, others_chips = achips,
         own_current_bet = b_bet rs, others_current_bet = a_bet rs,
         other_played = (\<not> a_can_raise rs)\<rparr>)"

text \<open>
  The first half of the loop body: ask the current player and apply the all-in rule.
  The result is \<^verbatim>\<open>proposed_bet\<close> after the clamp and the state of the agents.
\<close>

definition propose ::
  "'w IPAgent \<Rightarrow> 'w IPAgent \<Rightarrow> int \<Rightarrow> int \<Rightarrow> Cards \<Rightarrow> RoundState \<Rightarrow> 'w \<Rightarrow> int \<times> 'w" where
  "propose player_a player_b achips bchips cards rs w =
     (let current_player = (if a_turn rs then player_a else player_b);
          (proposed_bet, w') = current_player (visible_state achips bchips cards rs) w
      in (if proposed_bet \<ge> min achips bchips then min achips bchips else proposed_bet, w'))"

text \<open>The second half of the loop body, reached when the proposal is not a fold.\<close>

definition raise_or_call :: "RoundState \<Rightarrow> int \<Rightarrow> RoundState" where
  "raise_or_call rs proposed_bet =
     (let rs' = (if a_turn rs then
                   rs\<lparr>a_bet := proposed_bet, a_turn := False, a_can_raise := False,
                      b_can_raise := (proposed_bet > current_bet rs)\<rparr>
                 else
                   rs\<lparr>b_bet := proposed_bet, a_turn := True, b_can_raise := False,
                      a_can_raise := (proposed_bet > current_bet rs)\<rparr>)
      in rs'\<lparr>current_bet := max (current_bet rs) (max (a_bet rs') (b_bet rs'))\<rparr>)"

text \<open>
  The betting loop leaves \<^verbatim>\<open>playRound\<close> in one of two ways: through the
  \<^verbatim>\<open>return\<close> of the fold branch, or by falling out of the \<^verbatim>\<open>while\<close> to the reveal.
  Either way the result carries the local variables as they are at that point.
\<close>

datatype BettingEnd = Fold RoundState | Reveal RoundState

function betting ::
  "'w IPAgent \<Rightarrow> 'w IPAgent \<Rightarrow> int \<Rightarrow> int \<Rightarrow> Cards \<Rightarrow> RoundState \<Rightarrow> 'w \<Rightarrow> BettingEnd \<times> 'w" where
  "betting player_a player_b achips bchips cards rs w =
     (if a_can_raise rs \<or> b_can_raise rs then
        (case propose player_a player_b achips bchips cards rs w of
           (proposed_bet, w') \<Rightarrow>
             if proposed_bet < current_bet rs then (Fold rs, w')
             else betting player_a player_b achips bchips cards
                    (raise_or_call rs proposed_bet) w')
      else (Reveal rs, w))"
  by pat_completeness auto

termination betting
proof (relation "measure (\<lambda>(player_a, player_b, achips, bchips, cards, rs, w).
          2 * nat (min achips bchips - current_bet rs)
          + (if a_can_raise rs \<or> b_can_raise rs then 1 else 0))", goal_cases)
  case 1
  show ?case by simp
next
  case (2 player_a player_b achips bchips cards rs w p w')
  have le: "p \<le> min achips bchips"
    using 2(2) by (auto simp: propose_def Let_def split: prod.splits if_splits)
  have ge: "current_bet rs \<le> p"
    using 2(3) by simp
  have flag: "a_can_raise rs \<or> b_can_raise rs"
    using 2(1) .
  have mono: "current_bet rs \<le> current_bet (raise_or_call rs p)"
    by (auto simp: raise_or_call_def Let_def)
  have "2 * nat (min achips bchips - current_bet (raise_or_call rs p))
          + (if a_can_raise (raise_or_call rs p) \<or> b_can_raise (raise_or_call rs p)
             then 1 else 0)
        < 2 * nat (min achips bchips - current_bet rs)
          + (if a_can_raise rs \<or> b_can_raise rs then 1 else (0::nat))"
  proof (cases "p > current_bet rs")
    case True
    have "p \<le> current_bet (raise_or_call rs p)"
      by (auto simp: raise_or_call_def Let_def)
    then have lt: "nat (min achips bchips - current_bet (raise_or_call rs p))
               < nat (min achips bchips - current_bet rs)"
      using True le by linarith
    have "(if a_can_raise (raise_or_call rs p) \<or> b_can_raise (raise_or_call rs p)
           then 1 else (0::nat)) \<le> 1"
      by simp
    moreover have "(if a_can_raise rs \<or> b_can_raise rs then 1 else (0::nat)) = 1"
      using flag by simp
    ultimately show ?thesis
      using lt by linarith
  next
    case False
    have noflag: "\<not> (a_can_raise (raise_or_call rs p) \<or> b_can_raise (raise_or_call rs p))"
      using False by (auto simp: raise_or_call_def Let_def)
    have "nat (min achips bchips - current_bet (raise_or_call rs p))
          \<le> nat (min achips bchips - current_bet rs)"
      using mono by linarith
    moreover have "(if a_can_raise (raise_or_call rs p) \<or> b_can_raise (raise_or_call rs p)
                    then 1 else (0::nat)) = 0"
      using noflag by simp
    moreover have "(if a_can_raise rs \<or> b_can_raise rs then 1 else (0::nat)) = 1"
      using flag by simp
    ultimately show ?thesis
      by linarith
  qed
  then show ?case
    by (simp only: in_measure prod.case)
qed

declare betting.simps [simp del]

text \<open>
  The same loop with a budget: the body may run at most \<open>n\<close> times, and \<open>None\<close> says that
  the budget ran out while a side could still raise. It is used to bound the number of
  iterations of \<^const>\<open>betting\<close>.
\<close>

fun betting_fuel ::
  "nat \<Rightarrow> 'w IPAgent \<Rightarrow> 'w IPAgent \<Rightarrow> int \<Rightarrow> int \<Rightarrow> Cards \<Rightarrow> RoundState \<Rightarrow> 'w
     \<Rightarrow> (BettingEnd \<times> 'w) option" where
  "betting_fuel 0 player_a player_b achips bchips cards rs w =
     (if a_can_raise rs \<or> b_can_raise rs then None else Some (Reveal rs, w))"
| "betting_fuel (Suc k) player_a player_b achips bchips cards rs w =
     (if a_can_raise rs \<or> b_can_raise rs then
        (case propose player_a player_b achips bchips cards rs w of
           (proposed_bet, w') \<Rightarrow>
             if proposed_bet < current_bet rs then Some (Fold rs, w')
             else betting_fuel k player_a player_b achips bchips cards
                    (raise_or_call rs proposed_bet) w')
      else Some (Reveal rs, w))"

text \<open>
  The fold branch. \<^verbatim>\<open>current_bet\<close> is raised by the penalty before it is moved from
  the folder's stack to the other one.
\<close>

definition fold_resolve :: "Cards \<Rightarrow> RoundState \<Rightarrow> 'r IPGame \<Rightarrow> 'r IPGame" where
  "fold_resolve cards rs g =
     (let score_a = calculateScore (a_card cards) (common1 cards) (common2 cards);
          score_b = calculateScore (b_card cards) (common1 cards) (common2 cards)
      in if a_turn rs then
           (let cb = (if score_a > score_b then
                        (if score_a > 20 then current_bet rs + 10
                         else if score_a > 10 then current_bet rs + 5
                         else current_bet rs)
                      else current_bet rs)
            in g\<lparr>a_chips := a_chips g - cb, b_chips := b_chips g + cb, a_first := False\<rparr>)
         else
           (let cb = (if score_b > score_a then
                        (if score_b > 20 then current_bet rs + 10
                         else if score_b > 10 then current_bet rs + 5
                         else current_bet rs)
                      else current_bet rs)
            in g\<lparr>b_chips := b_chips g - cb, a_chips := a_chips g + cb, a_first := True\<rparr>))"

text \<open>The reveal after the loop.\<close>

definition reveal_resolve :: "Cards \<Rightarrow> RoundState \<Rightarrow> 'r IPGame \<Rightarrow> 'r IPGame" where
  "reveal_resolve cards rs g =
     (let winner = showdown (a_card cards) (b_card cards) (common1 cards) (common2 cards)
      in if winner = A_WIN then
           g\<lparr>a_chips := a_chips g + a_bet rs, b_chips := b_chips g - a_bet rs, a_first := True\<rparr>
         else
           g\<lparr>b_chips := b_chips g + a_bet rs, a_chips := a_chips g - a_bet rs, a_first := False\<rparr>)"

text \<open>The local variables of \<^verbatim>\<open>playRound\<close> before the loop.\<close>

definition initial_round :: "'r IPGame \<Rightarrow> RoundState" where
  "initial_round g =
     \<lparr>a_bet = blind g, b_bet = blind g, current_bet = blind g,
      a_can_raise = True, b_can_raise = True, a_turn = a_first g\<rparr>"

definition playRound ::
  "'r sampler \<Rightarrow> 'w IPAgent \<Rightarrow> 'w IPAgent \<Rightarrow> 'r IPGame \<Rightarrow> 'w \<Rightarrow> 'r IPGame \<times> 'w" where
  "playRound sample player_a player_b g w =
     (case sample (rng g) (deck g) of
        (cards, r') \<Rightarrow>
          (case betting player_a player_b (a_chips g) (b_chips g) cards (initial_round g) w of
             (Fold rs, w') \<Rightarrow> (fold_resolve cards rs (g\<lparr>rng := r'\<rparr>), w')
           | (Reveal rs, w') \<Rightarrow> (reveal_resolve cards rs (g\<lparr>rng := r'\<rparr>), w')))"

section \<open>One game\<close>

text \<open>
  The \<^verbatim>\<open>while\<close> of \<^verbatim>\<open>playGame\<close>, returning the game, the agents and the counter
  \<^verbatim>\<open>length\<close> as they are when the loop is left.
\<close>

function game_loop ::
  "'r sampler \<Rightarrow> 'w IPAgent \<Rightarrow> 'w IPAgent \<Rightarrow> 'r IPGame \<Rightarrow> 'w \<Rightarrow> int \<Rightarrow> 'r IPGame \<times> 'w \<times> int" where
  "game_loop sample player_a player_b g w len =
     (if a_chips g > 0 \<and> b_chips g > 0 \<and> len < max_length g then
        (case playRound sample player_a player_b g w of
           (g', w') \<Rightarrow> game_loop sample player_a player_b g' w' (len + 1))
      else (g, w, len))"
  by pat_completeness auto
termination
proof (relation "measure (\<lambda>(sample, player_a, player_b, g, w, len). nat (max_length g - len))",
       goal_cases)
  case 1
  show ?case by simp
next
  case (2 sample player_a player_b g w len g' w')
  have "max_length g' = max_length g"
    using 2(2)
    by (auto simp: playRound_def fold_resolve_def reveal_resolve_def Let_def
             split: prod.splits BettingEnd.splits if_splits)
  then show ?case
    using 2(1) by simp
qed

declare game_loop.simps [simp del]

text \<open>
  \<^verbatim>\<open>playGame\<close>: the points of both sides, together with the game object and the agents
  as the call leaves them.
\<close>

definition playGame ::
  "'r sampler \<Rightarrow> 'w IPAgent \<Rightarrow> 'w IPAgent \<Rightarrow> 'r IPGame \<Rightarrow> 'w \<Rightarrow> (real \<times> real) \<times> 'r IPGame \<times> 'w" where
  "playGame sample player_a player_b g w =
     (case game_loop sample player_a player_b g w 0 of
        (g', w', len) \<Rightarrow>
          (if len \<ge> max_length g' then (0.5, 0.5)
           else if a_chips g' > 0 then (1.0, 0.0)
           else (0.0, 1.0),
           g', w'))"

section \<open>The tournament\<close>

record IPTournament =
  num_games :: int
  seed_t :: int
  a_points :: real
  b_points :: real

text \<open>\<^verbatim>\<open>IPTournament.__init__\<close>; the defaults are 100 games and seed 1.\<close>

definition IPTournament_init :: "int \<Rightarrow> int \<Rightarrow> IPTournament" where
  "IPTournament_init n sd = \<lparr>num_games = n, seed_t = sd, a_points = 0, b_points = 0\<rparr>"

text \<open>Python's \<^verbatim>\<open>range(lo, hi)\<close> on integers.\<close>

definition range_py :: "int \<Rightarrow> int \<Rightarrow> int list" where
  "range_py lo hi = [lo..hi - 1]"

text \<open>
  The game objects that the loop of \<^verbatim>\<open>playTournament\<close> constructs, in the order of
  the loop: one for each \<^verbatim>\<open>i\<close> of the range, with the default chips, blind and length.
\<close>

definition tournament_games :: "(int \<Rightarrow> 'r) \<Rightarrow> IPTournament \<Rightarrow> 'r IPGame list" where
  "tournament_games Random t =
     map (\<lambda>i. IPGame_init Random i (i mod 2 = 0) 20 1 100000)
         (range_py (seed_t t) (seed_t t + num_games t))"

definition playTournament ::
  "(int \<Rightarrow> 'r) \<Rightarrow> 'r sampler \<Rightarrow> 'w IPAgent \<Rightarrow> 'w IPAgent \<Rightarrow> IPTournament \<Rightarrow> 'w
     \<Rightarrow> IPTournament \<times> 'w" where
  "playTournament Random sample player_a player_b t w =
     fold (\<lambda>game (t', w').
             case playGame sample player_a player_b game w' of
               ((a_add_points, b_add_points), g', w'') \<Rightarrow>
                 (t'\<lparr>a_points := a_points t' + a_add_points,
                     b_points := b_points t' + b_add_points\<rparr>, w''))
          (tournament_games Random t) (t, w)"

section \<open>The fold penalty as the specification words it\<close>

text \<open>
  The penalty of a fold in terms of the folder's score \<open>s_f\<close> and the other side's score
  \<open>s_o\<close>: 10 for a winning score above 20, 5 for a winning score above 10 and at most 20,
  and 0 otherwise. The theorems below compare \<^const>\<open>fold_resolve\<close> with it.
\<close>

definition fold_penalty :: "int \<Rightarrow> int \<Rightarrow> int" where
  "fold_penalty s_f s_o =
     (if s_f > s_o \<and> s_f > 20 then 10
      else if s_f > s_o \<and> 10 < s_f \<and> s_f \<le> 20 then 5
      else 0)"

text \<open>The score of the side that folds in state \<open>rs\<close>, and the score of the other side.\<close>

definition folder_score :: "Cards \<Rightarrow> RoundState \<Rightarrow> int" where
  "folder_score cards rs =
     calculateScore (if a_turn rs then a_card cards else b_card cards)
       (common1 cards) (common2 cards)"

definition opponent_score :: "Cards \<Rightarrow> RoundState \<Rightarrow> int" where
  "opponent_score cards rs =
     calculateScore (if a_turn rs then b_card cards else a_card cards)
       (common1 cards) (common2 cards)"

text \<open>A round that is resolved without a fold penalty: a reveal, or a fold with penalty 0.\<close>

definition no_fold_penalty :: "Cards \<Rightarrow> BettingEnd \<Rightarrow> bool" where
  "no_fold_penalty cards e =
     (case e of Reveal rs \<Rightarrow> True
              | Fold rs \<Rightarrow> fold_penalty (folder_score cards rs) (opponent_score cards rs) = 0)"

section \<open>Invariants of the betting loop\<close>

text \<open>
  Two facts about the local variables that hold whenever the loop condition is tested.
  The first: a side that has acted and has not been raised since has its bet at the
  current level. The second: the current bet stays between two bounds and no side's bet
  is above it.
\<close>

definition bets_aligned :: "RoundState \<Rightarrow> bool" where
  "bets_aligned rs \<longleftrightarrow>
     (a_can_raise rs \<and> b_can_raise rs \<and> a_bet rs = current_bet rs \<and> b_bet rs = current_bet rs)
     \<or> (\<not> a_turn rs \<and> \<not> a_can_raise rs \<and> a_bet rs = current_bet rs
          \<and> (b_can_raise rs \<or> b_bet rs = current_bet rs))
     \<or> (a_turn rs \<and> \<not> b_can_raise rs \<and> b_bet rs = current_bet rs
          \<and> (a_can_raise rs \<or> a_bet rs = current_bet rs))"

definition bets_bounded :: "int \<Rightarrow> int \<Rightarrow> RoundState \<Rightarrow> bool" where
  "bets_bounded lo hi rs \<longleftrightarrow>
     lo \<le> current_bet rs \<and> current_bet rs \<le> hi
     \<and> a_bet rs \<le> current_bet rs \<and> b_bet rs \<le> current_bet rs"

definition end_state :: "BettingEnd \<Rightarrow> RoundState" where
  "end_state e = (case e of Fold rs \<Rightarrow> rs | Reveal rs \<Rightarrow> rs)"

section \<open>Agents and deals for worked instances\<close>

text \<open>
  An agent without state that proposes the same bet at every turn, a generator without
  state, and a dealer that hands out the same four cards in every round.
\<close>

definition bet_const :: "int \<Rightarrow> unit IPAgent" where
  "bet_const n vs w = (n, w)"

definition Random_unit :: "int \<Rightarrow> unit" where
  "Random_unit sd = ()"

definition deal_fixed :: "int \<Rightarrow> int \<Rightarrow> int \<Rightarrow> int \<Rightarrow> unit sampler" where
  "deal_fixed a b c1 c2 r dk = (\<lparr>a_card = a, b_card = b, common1 = c1, common2 = c2\<rparr>, r)"



section \<open>Properties of the betting loop\<close>

lemma propose_le_min:
  "propose player_a player_b achips bchips cards rs w = (p, w') \<Longrightarrow> p \<le> min achips bchips"
  by (auto simp: propose_def Let_def split: prod.splits if_splits)

lemma raise_or_call_ge:
  "p \<le> current_bet (raise_or_call rs p)"
  "current_bet rs \<le> current_bet (raise_or_call rs p)"
  by (auto simp: raise_or_call_def Let_def)

lemma raise_or_call_flags:
  "(a_can_raise (raise_or_call rs p) \<or> b_can_raise (raise_or_call rs p)) = (p > current_bet rs)"
  by (auto simp: raise_or_call_def Let_def)

lemma betting_no_flags:
  "\<not> (a_can_raise rs \<or> b_can_raise rs) \<Longrightarrow>
     betting player_a player_b achips bchips cards rs w = (Reveal rs, w)"
  by (simp add: betting.simps [of player_a player_b achips bchips cards rs w])

lemma betting_fuel_no_flags:
  "\<not> (a_can_raise rs \<or> b_can_raise rs) \<Longrightarrow>
     betting_fuel n player_a player_b achips bchips cards rs w = Some (Reveal rs, w)"
  by (cases n) simp_all

lemma betting_fuel_enough:
  "nat (min achips bchips - current_bet rs) + 1 \<le> n \<Longrightarrow>
     betting_fuel n player_a player_b achips bchips cards rs w
       = Some (betting player_a player_b achips bchips cards rs w)"
proof (induction player_a player_b achips bchips cards rs w arbitrary: n rule: betting.induct)
  case (1 player_a player_b achips bchips cards rs w)
  show ?case
  proof (cases "a_can_raise rs \<or> b_can_raise rs")
    case False
    then show ?thesis
      using betting_fuel_no_flags [of rs n player_a player_b achips bchips cards w]
      by (simp add: betting.simps [of player_a player_b achips bchips cards rs w])
  next
    case True
    obtain k where n: "n = Suc k" using "1.prems" by (cases n) auto
    obtain p w' where pr: "propose player_a player_b achips bchips cards rs w = (p, w')"
      by (cases "propose player_a player_b achips bchips cards rs w")
    show ?thesis
    proof (cases "p < current_bet rs")
      case True
      with \<open>a_can_raise rs \<or> b_can_raise rs\<close> pr n show ?thesis
        by (simp add: betting.simps [of player_a player_b achips bchips cards rs w])
    next
      case False
      have step: "betting_fuel k player_a player_b achips bchips cards (raise_or_call rs p) w'
                  = Some (betting player_a player_b achips bchips cards (raise_or_call rs p) w')"
      proof (cases "p > current_bet rs")
        case True
        have "p \<le> min achips bchips" using propose_le_min [OF pr] .
        then have "nat (min achips bchips - current_bet (raise_or_call rs p)) + 1 \<le> k"
          using True raise_or_call_ge(1) [of p rs] "1.prems" n by linarith
        then show ?thesis
          using "1.IH" [OF \<open>a_can_raise rs \<or> b_can_raise rs\<close> pr [symmetric] False] by simp
      next
        case False
        then have nf: "\<not> (a_can_raise (raise_or_call rs p) \<or> b_can_raise (raise_or_call rs p))"
          using raise_or_call_flags [of rs p] by simp
        show ?thesis
          by (simp add: betting_fuel_no_flags [OF nf] betting_no_flags [OF nf])
      qed
      show ?thesis
        using \<open>a_can_raise rs \<or> b_can_raise rs\<close> pr n False step
        by (simp add: betting.simps [of player_a player_b achips bchips cards rs w])
    qed
  qed
qed

lemma bets_aligned_initial: "bets_aligned (initial_round g)"
  by (simp add: bets_aligned_def initial_round_def)

lemma bets_aligned_step:
  "bets_aligned rs \<Longrightarrow> a_can_raise rs \<or> b_can_raise rs \<Longrightarrow> current_bet rs \<le> p
     \<Longrightarrow> bets_aligned (raise_or_call rs p)"
  by (auto simp: bets_aligned_def raise_or_call_def Let_def)

lemma bets_bounded_step:
  "bets_bounded lo hi rs \<Longrightarrow> current_bet rs \<le> p \<Longrightarrow> p \<le> hi
     \<Longrightarrow> bets_bounded lo hi (raise_or_call rs p)"
  by (auto simp: bets_bounded_def raise_or_call_def Let_def)

lemma betting_invariant:
  assumes step: "\<And>rs p. P rs \<Longrightarrow> a_can_raise rs \<or> b_can_raise rs \<Longrightarrow> current_bet rs \<le> p
                   \<Longrightarrow> p \<le> min achips bchips \<Longrightarrow> P (raise_or_call rs p)"
  shows "P rs \<Longrightarrow> betting player_a player_b achips bchips cards rs w = (e, w')
           \<Longrightarrow> P (end_state e)
               \<and> (case e of Reveal rs' \<Rightarrow> \<not> a_can_raise rs' \<and> \<not> b_can_raise rs'
                   | Fold rs' \<Rightarrow> a_can_raise rs' \<or> b_can_raise rs')"
  using step
proof (induction player_a player_b achips bchips cards rs w rule: betting.induct)
  case (1 player_a player_b achips bchips cards rs w)
  note eq = betting.simps [of player_a player_b achips bchips cards rs w]
  show ?case
  proof (cases "a_can_raise rs \<or> b_can_raise rs")
    case False
    then have "e = Reveal rs" using "1.prems"(2) eq by simp
    then show ?thesis using False "1.prems"(1) by (simp add: end_state_def)
  next
    case True
    obtain p w1 where pr: "propose player_a player_b achips bchips cards rs w = (p, w1)"
      by (cases "propose player_a player_b achips bchips cards rs w")
    show ?thesis
    proof (cases "p < current_bet rs")
      case True
      then have "e = Fold rs" using "1.prems"(2) eq pr \<open>a_can_raise rs \<or> b_can_raise rs\<close> by simp
      then show ?thesis using \<open>a_can_raise rs \<or> b_can_raise rs\<close> "1.prems"(1) by (simp add: end_state_def)
    next
      case False
      have le: "p \<le> min achips bchips" using propose_le_min [OF pr] .
      have P': "P (raise_or_call rs p)"
        using "1.prems"(3) [OF "1.prems"(1) True _ le] False by simp
      have b': "betting player_a player_b achips bchips cards (raise_or_call rs p) w1 = (e, w')"
        using "1.prems"(2) eq pr True False by simp
      show ?thesis
        using "1.IH" [OF True pr [symmetric] False P' b' "1.prems"(3)] by simp
    qed
  qed
qed

lemma betting_reveal_matched:
  assumes "betting player_a player_b achips bchips cards (initial_round g) w = (Reveal rs, w')"
  shows "a_bet rs = current_bet rs \<and> b_bet rs = current_bet rs"
proof -
  have "bets_aligned (end_state (Reveal rs))
        \<and> (case Reveal rs of Reveal rs' \<Rightarrow> \<not> a_can_raise rs' \<and> \<not> b_can_raise rs'
            | Fold rs' \<Rightarrow> a_can_raise rs' \<or> b_can_raise rs')"
    using betting_invariant [where P = bets_aligned, OF _ bets_aligned_initial assms]
          bets_aligned_step
    by blast
  then show ?thesis
    by (auto simp: end_state_def bets_aligned_def)
qed

lemma betting_end_bounded:
  assumes "blind g \<le> min achips bchips"
      and "betting player_a player_b achips bchips cards (initial_round g) w = (e, w')"
  shows "blind g \<le> current_bet (end_state e) \<and> current_bet (end_state e) \<le> min achips bchips"
proof -
  have init: "bets_bounded (blind g) (min achips bchips) (initial_round g)"
    using assms(1) by (simp add: bets_bounded_def initial_round_def)
  have "bets_bounded (blind g) (min achips bchips) (end_state e)"
    using betting_invariant [where P = "bets_bounded (blind g) (min achips bchips)", OF _ init assms(2)]
          bets_bounded_step
    by blast
  then show ?thesis
    by (simp add: bets_bounded_def)
qed

lemma playRound_unfold:
  assumes "sample (rng g) (deck g) = (cards, r')"
      and "betting player_a player_b (a_chips g) (b_chips g) cards (initial_round g) w = (e, w')"
  shows "playRound sample player_a player_b g w =
           (case e of Fold rs \<Rightarrow> fold_resolve cards rs (g\<lparr>rng := r'\<rparr>)
                    | Reveal rs \<Rightarrow> reveal_resolve cards rs (g\<lparr>rng := r'\<rparr>), w')"
  using assms by (simp add: playRound_def split: BettingEnd.splits)

lemma fold_resolve_amount:
  "fold_resolve cards rs g =
     (if a_turn rs then
        g\<lparr>a_chips := a_chips g
             - (current_bet rs + fold_penalty (folder_score cards rs) (opponent_score cards rs)),
          b_chips := b_chips g
             + (current_bet rs + fold_penalty (folder_score cards rs) (opponent_score cards rs)),
          a_first := False\<rparr>
      else
        g\<lparr>b_chips := b_chips g
             - (current_bet rs + fold_penalty (folder_score cards rs) (opponent_score cards rs)),
          a_chips := a_chips g
             + (current_bet rs + fold_penalty (folder_score cards rs) (opponent_score cards rs)),
          a_first := True\<rparr>)"
  by (simp add: fold_resolve_def fold_penalty_def folder_score_def opponent_score_def Let_def)

lemma resolve_total:
  "a_chips (fold_resolve cards rs g) + b_chips (fold_resolve cards rs g) = a_chips g + b_chips g"
  "a_chips (reveal_resolve cards rs g) + b_chips (reveal_resolve cards rs g) = a_chips g + b_chips g"
  by (simp_all add: fold_resolve_amount reveal_resolve_def Let_def)

lemma playRound_total:
  "a_chips (fst (playRound sample player_a player_b g w))
     + b_chips (fst (playRound sample player_a player_b g w)) = a_chips g + b_chips g"
proof -
  obtain cards r' where sm: "sample (rng g) (deck g) = (cards, r')"
    by (cases "sample (rng g) (deck g)")
  obtain e w' where bt:
    "betting player_a player_b (a_chips g) (b_chips g) cards (initial_round g) w = (e, w')"
    by (cases "betting player_a player_b (a_chips g) (b_chips g) cards (initial_round g) w")
  show ?thesis
    unfolding playRound_unfold [where sample = sample and g = g, OF sm bt]
    by (cases e) (simp_all add: resolve_total)
qed

text \<open>
  Claim C10. The betting loop of \<^verbatim>\<open>playRound\<close> ends for every pair of agents and every
  integer they return, and \<^verbatim>\<open>max_length\<close> plays no part in it: from any state of the
  round, \<open>min(a_chips, b_chips) - current_bet + 1\<close> iterations (none below zero, plus
  one) are enough to leave the loop with the result of \<^const>\<open>betting\<close>. A proposal
  below the current bet ends the round as a fold; a proposal equal to the current bet
  clears both can-raise flags, so the loop is left for the reveal; and a proposal above
  the current bet becomes the new current bet, which the all-in clamp keeps at or below
  \<open>min(a_chips, b_chips)\<close>.
\<close>

theorem betting_terminates:
  "betting_fuel (nat (min achips bchips - current_bet rs) + 1)
       player_a player_b achips bchips cards rs w
     = Some (betting player_a player_b achips bchips cards rs w)
   \<and> ((a_can_raise rs_f \<or> b_can_raise rs_f)
        \<and> propose player_a player_b achips bchips cards rs_f w = (p_f, w_f)
        \<and> p_f < current_bet rs_f
      \<longrightarrow> betting player_a player_b achips bchips cards rs_f w = (Fold rs_f, w_f))
   \<and> ((a_can_raise rs_c \<or> b_can_raise rs_c)
        \<and> propose player_a player_b achips bchips cards rs_c w = (p_c, w_c)
        \<and> p_c = current_bet rs_c
      \<longrightarrow> \<not> a_can_raise (raise_or_call rs_c p_c) \<and> \<not> b_can_raise (raise_or_call rs_c p_c)
          \<and> betting player_a player_b achips bchips cards rs_c w
              = (Reveal (raise_or_call rs_c p_c), w_c))
   \<and> (propose player_a player_b achips bchips cards rs_r w = (p_r, w_r)
        \<and> p_r > current_bet rs_r
        \<and> a_bet rs_r \<le> current_bet rs_r \<and> b_bet rs_r \<le> current_bet rs_r
      \<longrightarrow> current_bet rs_r < current_bet (raise_or_call rs_r p_r)
          \<and> current_bet (raise_or_call rs_r p_r) = p_r
          \<and> p_r \<le> min achips bchips)"
proof (intro conjI impI)
  show "betting_fuel (nat (min achips bchips - current_bet rs) + 1)
          player_a player_b achips bchips cards rs w
        = Some (betting player_a player_b achips bchips cards rs w)"
    by (rule betting_fuel_enough) simp
next
  assume "(a_can_raise rs_f \<or> b_can_raise rs_f)
        \<and> propose player_a player_b achips bchips cards rs_f w = (p_f, w_f)
        \<and> p_f < current_bet rs_f"
  then show "betting player_a player_b achips bchips cards rs_f w = (Fold rs_f, w_f)"
    by (simp add: betting.simps [of player_a player_b achips bchips cards rs_f w])
next
  assume a: "(a_can_raise rs_c \<or> b_can_raise rs_c)
        \<and> propose player_a player_b achips bchips cards rs_c w = (p_c, w_c)
        \<and> p_c = current_bet rs_c"
  then have nf: "\<not> (a_can_raise (raise_or_call rs_c p_c) \<or> b_can_raise (raise_or_call rs_c p_c))"
    using raise_or_call_flags [of rs_c p_c] by simp
  show "\<not> a_can_raise (raise_or_call rs_c p_c)" using nf by simp
  show "\<not> b_can_raise (raise_or_call rs_c p_c)" using nf by simp
  have "betting player_a player_b achips bchips cards rs_c w
          = betting player_a player_b achips bchips cards (raise_or_call rs_c p_c) w_c"
    using a by (simp add: betting.simps [of player_a player_b achips bchips cards rs_c w])
  also have "\<dots> = (Reveal (raise_or_call rs_c p_c), w_c)"
    by (rule betting_no_flags [OF nf])
  finally show "betting player_a player_b achips bchips cards rs_c w
          = (Reveal (raise_or_call rs_c p_c), w_c)" .
next
  assume a: "propose player_a player_b achips bchips cards rs_r w = (p_r, w_r)
        \<and> p_r > current_bet rs_r
        \<and> a_bet rs_r \<le> current_bet rs_r \<and> b_bet rs_r \<le> current_bet rs_r"
  show "current_bet (raise_or_call rs_r p_r) = p_r"
    using a by (auto simp: raise_or_call_def Let_def)
  then show "current_bet rs_r < current_bet (raise_or_call rs_r p_r)"
    using a by simp
  from a have "propose player_a player_b achips bchips cards rs_r w = (p_r, w_r)"
    by simp
  then show "p_r \<le> min achips bchips"
    by (rule propose_le_min)
qed

theorem betting_terminates_witness:
  "betting_fuel 20 (bet_const 3) (bet_const 3) 20 20
       \<lparr>a_card = 3, b_card = 7, common1 = 4, common2 = 5\<rparr>
       \<lparr>a_bet = 1, b_bet = 1, current_bet = 1, a_can_raise = True, b_can_raise = True, a_turn = True\<rparr> ()
     = Some (betting (bet_const 3) (bet_const 3) 20 20
       \<lparr>a_card = 3, b_card = 7, common1 = 4, common2 = 5\<rparr>
       \<lparr>a_bet = 1, b_bet = 1, current_bet = 1, a_can_raise = True, b_can_raise = True, a_turn = True\<rparr> ())
   \<and> betting (bet_const 3) (bet_const 3) 20 20
       \<lparr>a_card = 3, b_card = 7, common1 = 4, common2 = 5\<rparr>
       \<lparr>a_bet = 5, b_bet = 1, current_bet = 5, a_can_raise = False, b_can_raise = True, a_turn = False\<rparr> ()
     = (Fold \<lparr>a_bet = 5, b_bet = 1, current_bet = 5, a_can_raise = False, b_can_raise = True, a_turn = False\<rparr>, ())
   \<and> betting (bet_const 3) (bet_const 3) 20 20
       \<lparr>a_card = 3, b_card = 7, common1 = 4, common2 = 5\<rparr>
       \<lparr>a_bet = 3, b_bet = 1, current_bet = 3, a_can_raise = False, b_can_raise = True, a_turn = False\<rparr> ()
     = (Reveal \<lparr>a_bet = 3, b_bet = 3, current_bet = 3, a_can_raise = False, b_can_raise = False, a_turn = True\<rparr>, ())
   \<and> current_bet (raise_or_call
        \<lparr>a_bet = 1, b_bet = 1, current_bet = 1, a_can_raise = True, b_can_raise = True, a_turn = True\<rparr> 3) = 3"
  using betting_terminates
    [where achips = 20 and bchips = 20 and player_a = "bet_const 3" and player_b = "bet_const 3"
       and cards = "\<lparr>a_card = 3, b_card = 7, common1 = 4, common2 = 5\<rparr>" and w = "()"
       and rs = "\<lparr>a_bet = 1, b_bet = 1, current_bet = 1, a_can_raise = True, b_can_raise = True, a_turn = True\<rparr>"
       and rs_f = "\<lparr>a_bet = 5, b_bet = 1, current_bet = 5, a_can_raise = False, b_can_raise = True, a_turn = False\<rparr>"
       and p_f = 3 and w_f = "()"
       and rs_c = "\<lparr>a_bet = 3, b_bet = 1, current_bet = 3, a_can_raise = False, b_can_raise = True, a_turn = False\<rparr>"
       and p_c = 3 and w_c = "()"
       and rs_r = "\<lparr>a_bet = 1, b_bet = 1, current_bet = 1, a_can_raise = True, b_can_raise = True, a_turn = True\<rparr>"
       and p_r = 3 and w_r = "()"]
  by (simp add: propose_def visible_state_def bet_const_def raise_or_call_def Let_def)


section \<open>Properties of one round\<close>

lemma reveal_resolve_draw:
  "calculateScore (a_card cards) (common1 cards) (common2 cards)
     = calculateScore (b_card cards) (common1 cards) (common2 cards)
   \<Longrightarrow> reveal_resolve cards rs g
       = g\<lparr>b_chips := b_chips g + a_bet rs, a_chips := a_chips g - a_bet rs, a_first := False\<rparr>"
  by (simp add: reveal_resolve_def showdown_def Let_def)

text \<open>
  Claim C2. When a round ends in a fold, the amount moved is the current bet plus a
  penalty: with \<open>s_f\<close> the folder's score and \<open>s_o\<close> the other side's score, the penalty
  is 10 if \<open>s_f > s_o\<close> and \<open>s_f > 20\<close>, 5 if \<open>s_f > s_o\<close> and \<open>10 < s_f \<le> 20\<close>, and 0
  otherwise. The folder's stack goes down by that amount, the other stack goes up by the
  same amount, and the side that did not fold acts first in the next round. The folder
  is the side whose turn it is in the state \<open>rs\<close> that the loop is left with: A if
  \<open>a_turn rs\<close>, B otherwise.
\<close>

theorem fold_pays_bet_plus_penalty:
  assumes "sample (rng g) (deck g) = (cards, r')"
      and "betting player_a player_b (a_chips g) (b_chips g) cards (initial_round g) w
             = (Fold rs, w')"
  shows "playRound sample player_a player_b g w =
     (if a_turn rs then
        g\<lparr>rng := r',
          a_chips := a_chips g
             - (current_bet rs + fold_penalty (folder_score cards rs) (opponent_score cards rs)),
          b_chips := b_chips g
             + (current_bet rs + fold_penalty (folder_score cards rs) (opponent_score cards rs)),
          a_first := False\<rparr>
      else
        g\<lparr>rng := r',
          b_chips := b_chips g
             - (current_bet rs + fold_penalty (folder_score cards rs) (opponent_score cards rs)),
          a_chips := a_chips g
             + (current_bet rs + fold_penalty (folder_score cards rs) (opponent_score cards rs)),
          a_first := True\<rparr>, w')"
  unfolding playRound_unfold [where sample = sample and g = g, OF assms]
  by (simp add: fold_resolve_amount)

theorem fold_pays_bet_plus_penalty_witness:
  "deal_fixed 3 7 4 5 (rng (IPGame_init Random_unit 2 True 20 1 100000))
       (deck (IPGame_init Random_unit 2 True 20 1 100000))
     = (\<lparr>a_card = 3, b_card = 7, common1 = 4, common2 = 5\<rparr>, ())
   \<and> betting (bet_const 0) (bet_const 1) 20 20
        \<lparr>a_card = 3, b_card = 7, common1 = 4, common2 = 5\<rparr>
        (initial_round (IPGame_init Random_unit 2 True 20 1 100000)) ()
     = (Fold \<lparr>a_bet = 1, b_bet = 1, current_bet = 1, a_can_raise = True,
              b_can_raise = True, a_turn = True\<rparr>, ())
   \<and> playRound (deal_fixed 3 7 4 5) (bet_const 0) (bet_const 1)
        (IPGame_init Random_unit 2 True 20 1 100000) ()
     = ((IPGame_init Random_unit 2 True 20 1 100000)
          \<lparr>a_chips := 20 - (1 + 10), b_chips := 20 + (1 + 10), a_first := False\<rparr>, ())"
proof -
  let ?g = "IPGame_init Random_unit 2 True 20 1 100000"
  let ?cards = "\<lparr>a_card = 3, b_card = 7, common1 = 4, common2 = 5\<rparr>"
  let ?rs = "\<lparr>a_bet = 1, b_bet = 1, current_bet = 1, a_can_raise = True,
              b_can_raise = True, a_turn = True\<rparr>"
  have h1: "deal_fixed 3 7 4 5 (rng ?g) (deck ?g) = (?cards, ())"
    by (simp add: deal_fixed_def)
  have h2: "betting (bet_const 0) (bet_const 1) (a_chips ?g) (b_chips ?g) ?cards
              (initial_round ?g) () = (Fold ?rs, ())"
    by code_simp
  have s: "folder_score ?cards ?rs = 25" "opponent_score ?cards ?rs = 7"
    by code_simp+
  show ?thesis
    using h1 h2 fold_pays_bet_plus_penalty [where sample = "deal_fixed 3 7 4 5" and g = ?g, OF h1 h2]
    by (simp add: s fold_penalty_def IPGame_init_def)
qed


text \<open>
  Claim C3, as amended. When a round ends in a fold with a penalty that is not zero, the
  sum of the two stacks after the round is the sum before it: the folder pays the
  current bet and the penalty, and the other side receives both.
\<close>

theorem fold_penalty_goes_to_opponent:
  assumes "sample (rng g) (deck g) = (cards, r')"
      and "betting player_a player_b (a_chips g) (b_chips g) cards (initial_round g) w
             = (Fold rs, w')"
      and "fold_penalty (folder_score cards rs) (opponent_score cards rs) \<noteq> 0"
  shows "a_chips (fst (playRound sample player_a player_b g w))
           + b_chips (fst (playRound sample player_a player_b g w)) = a_chips g + b_chips g
         \<and> (if a_turn rs
             then b_chips (fst (playRound sample player_a player_b g w)) - b_chips g
             else a_chips (fst (playRound sample player_a player_b g w)) - a_chips g)
            = current_bet rs + fold_penalty (folder_score cards rs) (opponent_score cards rs)"
  unfolding playRound_unfold [where sample = sample and g = g, OF assms(1,2)]
  by (simp add: fold_resolve_amount)

theorem fold_penalty_goes_to_opponent_witness:
  "fold_penalty
       (folder_score \<lparr>a_card = 3, b_card = 7, common1 = 4, common2 = 5\<rparr>
          \<lparr>a_bet = 1, b_bet = 1, current_bet = 1, a_can_raise = True,
           b_can_raise = True, a_turn = True\<rparr>)
       (opponent_score \<lparr>a_card = 3, b_card = 7, common1 = 4, common2 = 5\<rparr>
          \<lparr>a_bet = 1, b_bet = 1, current_bet = 1, a_can_raise = True,
           b_can_raise = True, a_turn = True\<rparr>) = 10
   \<and> a_chips (fst (playRound (deal_fixed 3 7 4 5) (bet_const 0) (bet_const 1)
                      (IPGame_init Random_unit 2 True 20 1 100000) ()))
     + b_chips (fst (playRound (deal_fixed 3 7 4 5) (bet_const 0) (bet_const 1)
                      (IPGame_init Random_unit 2 True 20 1 100000) ())) = 40
   \<and> b_chips (fst (playRound (deal_fixed 3 7 4 5) (bet_const 0) (bet_const 1)
                      (IPGame_init Random_unit 2 True 20 1 100000) ())) - 20 = 1 + 10"
proof -
  let ?g = "IPGame_init Random_unit 2 True 20 1 100000"
  let ?cards = "\<lparr>a_card = 3, b_card = 7, common1 = 4, common2 = 5\<rparr>"
  let ?rs = "\<lparr>a_bet = 1, b_bet = 1, current_bet = 1, a_can_raise = True,
              b_can_raise = True, a_turn = True\<rparr>"
  have h1: "deal_fixed 3 7 4 5 (rng ?g) (deck ?g) = (?cards, ())"
    by (simp add: deal_fixed_def)
  have h2: "betting (bet_const 0) (bet_const 1) (a_chips ?g) (b_chips ?g) ?cards
              (initial_round ?g) () = (Fold ?rs, ())"
    by code_simp
  have s: "folder_score ?cards ?rs = 25" "opponent_score ?cards ?rs = 7"
    by code_simp+
  have h3: "fold_penalty (folder_score ?cards ?rs) (opponent_score ?cards ?rs) \<noteq> 0"
    by (simp add: s fold_penalty_def)
  show ?thesis
    using fold_penalty_goes_to_opponent
            [where sample = "deal_fixed 3 7 4 5" and g = ?g, OF h1 h2 h3]
    by (simp add: s fold_penalty_def IPGame_init_def)
qed

text \<open>
  Claim C3 as stated says that the sum of the stacks changes in a fold with a penalty.
  In the round below A folds a straight (score 25 against 7) at the blind: A pays 11,
  B receives 11, and the sum stays 40.
\<close>

theorem fold_penalty_total_counterexample:
  "betting (bet_const 0) (bet_const 1) 20 20
        \<lparr>a_card = 3, b_card = 7, common1 = 4, common2 = 5\<rparr>
        (initial_round (IPGame_init Random_unit 2 True 20 1 100000)) ()
     = (Fold \<lparr>a_bet = 1, b_bet = 1, current_bet = 1, a_can_raise = True,
              b_can_raise = True, a_turn = True\<rparr>, ())
   \<and> calculateScore 3 4 5 = 25 \<and> calculateScore 7 4 5 = 7
   \<and> a_chips (fst (playRound (deal_fixed 3 7 4 5) (bet_const 0) (bet_const 1)
                      (IPGame_init Random_unit 2 True 20 1 100000) ())) = 20 - 11
   \<and> b_chips (fst (playRound (deal_fixed 3 7 4 5) (bet_const 0) (bet_const 1)
                      (IPGame_init Random_unit 2 True 20 1 100000) ())) = 20 + 11
   \<and> \<not> (a_chips (fst (playRound (deal_fixed 3 7 4 5) (bet_const 0) (bet_const 1)
                      (IPGame_init Random_unit 2 True 20 1 100000) ()))
          + b_chips (fst (playRound (deal_fixed 3 7 4 5) (bet_const 0) (bet_const 1)
                      (IPGame_init Random_unit 2 True 20 1 100000) ()))
        \<noteq> a_chips (IPGame_init Random_unit 2 True 20 1 100000)
          + b_chips (IPGame_init Random_unit 2 True 20 1 100000))"
  by code_simp

text \<open>
  Claim C4. For every round that is resolved without a fold penalty (a reveal, or a fold
  whose penalty is zero) the sum of the two stacks after the round equals the sum
  before it; what moves from one stack to the other is the current bet.
\<close>

theorem round_without_penalty_conserves_total:
  assumes "sample (rng g) (deck g) = (cards, r')"
      and "betting player_a player_b (a_chips g) (b_chips g) cards (initial_round g) w = (e, w')"
      and "no_fold_penalty cards e"
  shows "a_chips (fst (playRound sample player_a player_b g w))
           + b_chips (fst (playRound sample player_a player_b g w)) = a_chips g + b_chips g
         \<and> (a_chips (fst (playRound sample player_a player_b g w))
               = a_chips g + current_bet (end_state e)
            \<or> a_chips (fst (playRound sample player_a player_b g w))
               = a_chips g - current_bet (end_state e))"
proof (cases e)
  case (Fold rs)
  then show ?thesis
    using assms(3)
    unfolding playRound_unfold [where sample = sample and g = g, OF assms(1,2)]
    by (simp add: fold_resolve_amount no_fold_penalty_def end_state_def)
next
  case (Reveal rs)
  have "a_bet rs = current_bet rs"
    using betting_reveal_matched [OF assms(2) [unfolded Reveal]] by simp
  then show ?thesis
    using Reveal
    unfolding playRound_unfold [where sample = sample and g = g, OF assms(1,2)]
    by (simp add: reveal_resolve_def Let_def end_state_def)
qed

theorem round_without_penalty_conserves_total_witness:
  "no_fold_penalty \<lparr>a_card = 3, b_card = 7, common1 = 4, common2 = 5\<rparr>
       (Reveal \<lparr>a_bet = 1, b_bet = 1, current_bet = 1, a_can_raise = False,
                b_can_raise = False, a_turn = False\<rparr>)
   \<and> a_chips (fst (playRound (deal_fixed 3 7 4 5) (bet_const 1) (bet_const 1)
                      (IPGame_init Random_unit 2 True 20 1 100000) ()))
     + b_chips (fst (playRound (deal_fixed 3 7 4 5) (bet_const 1) (bet_const 1)
                      (IPGame_init Random_unit 2 True 20 1 100000) ())) = 40
   \<and> no_fold_penalty \<lparr>a_card = 7, b_card = 3, common1 = 4, common2 = 5\<rparr>
       (Fold \<lparr>a_bet = 1, b_bet = 1, current_bet = 1, a_can_raise = True,
              b_can_raise = True, a_turn = True\<rparr>)
   \<and> a_chips (fst (playRound (deal_fixed 7 3 4 5) (bet_const 0) (bet_const 1)
                      (IPGame_init Random_unit 2 True 20 1 100000) ()))
     + b_chips (fst (playRound (deal_fixed 7 3 4 5) (bet_const 0) (bet_const 1)
                      (IPGame_init Random_unit 2 True 20 1 100000) ())) = 40"
proof -
  let ?g = "IPGame_init Random_unit 2 True 20 1 100000"
  let ?c1 = "\<lparr>a_card = 3, b_card = 7, common1 = 4, common2 = 5\<rparr>"
  let ?e1 = "Reveal \<lparr>a_bet = 1, b_bet = 1, current_bet = 1, a_can_raise = False,
                b_can_raise = False, a_turn = False\<rparr>"
  let ?c2 = "\<lparr>a_card = 7, b_card = 3, common1 = 4, common2 = 5\<rparr>"
  let ?e2 = "Fold \<lparr>a_bet = 1, b_bet = 1, current_bet = 1, a_can_raise = True,
              b_can_raise = True, a_turn = True\<rparr>"
  have a1: "deal_fixed 3 7 4 5 (rng ?g) (deck ?g) = (?c1, ())"
    by (simp add: deal_fixed_def)
  have a2: "betting (bet_const 1) (bet_const 1) (a_chips ?g) (b_chips ?g) ?c1
              (initial_round ?g) () = (?e1, ())"
    by code_simp
  have a3: "no_fold_penalty ?c1 ?e1"
    by (simp add: no_fold_penalty_def)
  have b1: "deal_fixed 7 3 4 5 (rng ?g) (deck ?g) = (?c2, ())"
    by (simp add: deal_fixed_def)
  have b2: "betting (bet_const 0) (bet_const 1) (a_chips ?g) (b_chips ?g) ?c2
              (initial_round ?g) () = (?e2, ())"
    by code_simp
  have b3: "no_fold_penalty ?c2 ?e2"
    by code_simp
  show ?thesis
    using a3 b3
      round_without_penalty_conserves_total
        [where sample = "deal_fixed 3 7 4 5" and g = ?g, OF a1 a2 a3]
      round_without_penalty_conserves_total
        [where sample = "deal_fixed 7 3 4 5" and g = ?g, OF b1 b2 b3]
    by (simp add: IPGame_init_def)
qed


text \<open>
  Claim C1, as amended. When a round ends in a reveal with equal scores, the bets of both
  sides equal the current bet, that amount moves from A's stack to B's stack, and B acts
  first in the next round, whichever side acted first in this round.
\<close>

theorem drawn_showdown_pays_b:
  assumes "sample (rng g) (deck g) = (cards, r')"
      and "betting player_a player_b (a_chips g) (b_chips g) cards (initial_round g) w
             = (Reveal rs, w')"
      and "calculateScore (a_card cards) (common1 cards) (common2 cards)
             = calculateScore (b_card cards) (common1 cards) (common2 cards)"
  shows "showdown (a_card cards) (b_card cards) (common1 cards) (common2 cards) = DRAW
         \<and> a_bet rs = current_bet rs \<and> b_bet rs = current_bet rs
         \<and> playRound sample player_a player_b g w
             = (g\<lparr>rng := r', b_chips := b_chips g + current_bet rs,
                  a_chips := a_chips g - current_bet rs, a_first := False\<rparr>, w')"
proof -
  have m: "a_bet rs = current_bet rs \<and> b_bet rs = current_bet rs"
    using betting_reveal_matched [OF assms(2)] .
  have d: "showdown (a_card cards) (b_card cards) (common1 cards) (common2 cards) = DRAW"
    using assms(3) by (simp add: showdown_def)
  show ?thesis
    unfolding playRound_unfold [where sample = sample and g = g, OF assms(1,2)]
    using m d by (simp add: reveal_resolve_draw [OF assms(3)])
qed

theorem drawn_showdown_pays_b_witness:
  "calculateScore 5 2 8 = calculateScore 5 2 8
   \<and> \<not> a_first (IPGame_init Random_unit 1 False 20 1 100000)
   \<and> playRound (deal_fixed 5 5 2 8) (bet_const 1) (bet_const 1)
        (IPGame_init Random_unit 1 False 20 1 100000) ()
      = ((IPGame_init Random_unit 1 False 20 1 100000)
           \<lparr>b_chips := 20 + 1, a_chips := 20 - 1, a_first := False\<rparr>, ())
   \<and> a_first (IPGame_init Random_unit 2 True 20 1 100000)
   \<and> playRound (deal_fixed 5 5 2 8) (bet_const 1) (bet_const 1)
        (IPGame_init Random_unit 2 True 20 1 100000) ()
      = ((IPGame_init Random_unit 2 True 20 1 100000)
           \<lparr>b_chips := 20 + 1, a_chips := 20 - 1, a_first := False\<rparr>, ())"
proof -
  let ?gb = "IPGame_init Random_unit 1 False 20 1 100000"
  let ?ga = "IPGame_init Random_unit 2 True 20 1 100000"
  let ?cards = "\<lparr>a_card = 5, b_card = 5, common1 = 2, common2 = 8\<rparr>"
  let ?rb = "\<lparr>a_bet = 1, b_bet = 1, current_bet = 1, a_can_raise = False,
              b_can_raise = False, a_turn = True\<rparr>"
  let ?ra = "\<lparr>a_bet = 1, b_bet = 1, current_bet = 1, a_can_raise = False,
              b_can_raise = False, a_turn = False\<rparr>"
  have b1: "deal_fixed 5 5 2 8 (rng ?gb) (deck ?gb) = (?cards, ())"
    by (simp add: deal_fixed_def)
  have b2: "betting (bet_const 1) (bet_const 1) (a_chips ?gb) (b_chips ?gb) ?cards
              (initial_round ?gb) () = (Reveal ?rb, ())"
    by code_simp
  have a1: "deal_fixed 5 5 2 8 (rng ?ga) (deck ?ga) = (?cards, ())"
    by (simp add: deal_fixed_def)
  have a2: "betting (bet_const 1) (bet_const 1) (a_chips ?ga) (b_chips ?ga) ?cards
              (initial_round ?ga) () = (Reveal ?ra, ())"
    by code_simp
  have eq: "calculateScore (a_card ?cards) (common1 ?cards) (common2 ?cards)
              = calculateScore (b_card ?cards) (common1 ?cards) (common2 ?cards)"
    by simp
  show ?thesis
    using drawn_showdown_pays_b [where sample = "deal_fixed 5 5 2 8" and g = ?gb, OF b1 b2 eq]
          drawn_showdown_pays_b [where sample = "deal_fixed 5 5 2 8" and g = ?ga, OF a1 a2 eq]
    by (simp add: IPGame_init_def)
qed

text \<open>
  Claim C1 as stated says that in a drawn reveal the side that acted first pays the
  other side, so that B pays A when B acted first. In the round below B acts first and
  calls, both scores are 5, and A pays the blind to B; B acts first again.
\<close>

theorem drawn_showdown_b_first_counterexample:
  "\<not> a_first (IPGame_init Random_unit 1 False 20 1 100000)
   \<and> betting (bet_const 1) (bet_const 1) 20 20
        \<lparr>a_card = 5, b_card = 5, common1 = 2, common2 = 8\<rparr>
        (initial_round (IPGame_init Random_unit 1 False 20 1 100000)) ()
      = (Reveal \<lparr>a_bet = 1, b_bet = 1, current_bet = 1, a_can_raise = False,
                 b_can_raise = False, a_turn = True\<rparr>, ())
   \<and> showdown 5 5 2 8 = DRAW
   \<and> a_chips (fst (playRound (deal_fixed 5 5 2 8) (bet_const 1) (bet_const 1)
                      (IPGame_init Random_unit 1 False 20 1 100000) ())) = 19
   \<and> b_chips (fst (playRound (deal_fixed 5 5 2 8) (bet_const 1) (bet_const 1)
                      (IPGame_init Random_unit 1 False 20 1 100000) ())) = 21
   \<and> \<not> a_first (fst (playRound (deal_fixed 5 5 2 8) (bet_const 1) (bet_const 1)
                      (IPGame_init Random_unit 1 False 20 1 100000) ()))
   \<and> \<not> (b_chips (fst (playRound (deal_fixed 5 5 2 8) (bet_const 1) (bet_const 1)
                      (IPGame_init Random_unit 1 False 20 1 100000) ())) = 20 - 1
         \<and> a_chips (fst (playRound (deal_fixed 5 5 2 8) (bet_const 1) (bet_const 1)
                      (IPGame_init Random_unit 1 False 20 1 100000) ())) = 20 + 1
         \<and> a_first (fst (playRound (deal_fixed 5 5 2 8) (bet_const 1) (bet_const 1)
                      (IPGame_init Random_unit 1 False 20 1 100000) ())))"
  by code_simp

text \<open>
  Claim C9, as amended. If a round starts with \<open>0 \<le> blind \<le> min(a_chips, b_chips)\<close> and
  is resolved without a fold penalty, both stacks are non-negative after it: the clamp
  keeps the current bet, which is what moves, at or below the shorter stack. (The
  penalty of a fold is added after the clamp.)
\<close>

theorem stacks_nonnegative_without_penalty:
  assumes "sample (rng g) (deck g) = (cards, r')"
      and "betting player_a player_b (a_chips g) (b_chips g) cards (initial_round g) w = (e, w')"
      and "0 \<le> blind g"
      and "blind g \<le> min (a_chips g) (b_chips g)"
      and "no_fold_penalty cards e"
  shows "0 \<le> a_chips (fst (playRound sample player_a player_b g w))
         \<and> 0 \<le> b_chips (fst (playRound sample player_a player_b g w))"
proof -
  have bd: "blind g \<le> current_bet (end_state e)
            \<and> current_bet (end_state e) \<le> min (a_chips g) (b_chips g)"
    using betting_end_bounded [OF assms(4) assms(2)] .
  show ?thesis
  proof (cases e)
    case (Fold rs)
    then show ?thesis
      using assms(3,5) bd
      unfolding playRound_unfold [where sample = sample and g = g, OF assms(1,2)]
      by (simp add: fold_resolve_amount no_fold_penalty_def end_state_def)
  next
    case (Reveal rs)
    have "a_bet rs = current_bet rs"
      using betting_reveal_matched [OF assms(2) [unfolded Reveal]] by simp
    then show ?thesis
      using Reveal assms(3) bd
      unfolding playRound_unfold [where sample = sample and g = g, OF assms(1,2)]
      by (simp add: reveal_resolve_def Let_def end_state_def)
  qed
qed

theorem stacks_nonnegative_without_penalty_witness:
  "(0::int) \<le> 1 \<and> (1::int) \<le> min 39 1
   \<and> no_fold_penalty \<lparr>a_card = 3, b_card = 7, common1 = 4, common2 = 5\<rparr>
       (Reveal \<lparr>a_bet = 1, b_bet = 1, current_bet = 1, a_can_raise = False,
                b_can_raise = False, a_turn = True\<rparr>)
   \<and> 0 \<le> a_chips (fst (playRound (deal_fixed 3 7 4 5) (bet_const 5) (bet_const 5)
        ((IPGame_init Random_unit 1 False 20 1 100000)\<lparr>a_chips := 39, b_chips := 1\<rparr>) ()))
   \<and> 0 \<le> b_chips (fst (playRound (deal_fixed 3 7 4 5) (bet_const 5) (bet_const 5)
        ((IPGame_init Random_unit 1 False 20 1 100000)\<lparr>a_chips := 39, b_chips := 1\<rparr>) ()))"
proof -
  let ?g = "(IPGame_init Random_unit 1 False 20 1 100000)\<lparr>a_chips := 39, b_chips := 1\<rparr>"
  let ?cards = "\<lparr>a_card = 3, b_card = 7, common1 = 4, common2 = 5\<rparr>"
  let ?e = "Reveal \<lparr>a_bet = 1, b_bet = 1, current_bet = 1, a_can_raise = False,
                b_can_raise = False, a_turn = True\<rparr>"
  have h1: "deal_fixed 3 7 4 5 (rng ?g) (deck ?g) = (?cards, ())"
    by (simp add: deal_fixed_def)
  have h2: "betting (bet_const 5) (bet_const 5) (a_chips ?g) (b_chips ?g) ?cards
              (initial_round ?g) () = (?e, ())"
    by code_simp
  have h3: "0 \<le> blind ?g"
    by (simp add: IPGame_init_def)
  have h4: "blind ?g \<le> min (a_chips ?g) (b_chips ?g)"
    by (simp add: IPGame_init_def)
  have h5: "no_fold_penalty ?cards ?e"
    by (simp add: no_fold_penalty_def)
  show ?thesis
    using h5 stacks_nonnegative_without_penalty
               [where sample = "deal_fixed 3 7 4 5" and g = ?g, OF h1 h2 h3 h4 h5]
    by simp
qed

text \<open>
  Claim C9 as stated says that no stack is negative once a round is resolved. With 5
  chips each, A folding a straight at the blind pays 11 and is left with -6. With the
  default 20 chips, an A that always folds and a B that always bets 1 end the game after
  three rounds with A at -1.
\<close>

theorem stacks_nonnegative_counterexample:
  "a_chips (fst (playRound (deal_fixed 3 7 4 5) (bet_const 0) (bet_const 1)
        (IPGame_init Random_unit 2 True 5 1 100000) ())) = - 6
   \<and> playGame (deal_fixed 3 7 4 5) (bet_const 0) (bet_const 1)
        (IPGame_init Random_unit 2 True 20 1 100000) ()
      = ((0, 1), (IPGame_init Random_unit 2 True 20 1 100000)
                   \<lparr>a_chips := - 1, b_chips := 41, a_first := False\<rparr>, ())
   \<and> \<not> (0 \<le> a_chips (fst (snd (playGame (deal_fixed 3 7 4 5) (bet_const 0) (bet_const 1)
        (IPGame_init Random_unit 2 True 20 1 100000) ()))))"
  by code_simp

section \<open>Properties of the scorer\<close>

lemma sort_of_mset:
  "mset xs = mset ys \<Longrightarrow> sorted ys \<Longrightarrow> sort xs = (ys::int list)"
  by (rule properties_for_sort) simp_all

lemma sort_swap: "sort [c, x, y] = sort [c, y, (x::int)]"
proof -
  have "mset [c, x, y] = mset (sort [c, y, x])" by simp
  then show ?thesis by (rule sort_of_mset) simp
qed

lemma calculateScore_of_sorted:
  assumes "sort [c, x, y] = [l, m, h]"
  shows "calculateScore c x y =
     (if [l, m, h] = [1, 9, 10] then 21
      else if [l, m, h] = [1, 2, 10] then 22
      else if m = l mod 10 + 1 \<and> h = m mod 10 + 1 then 20 + h
      else if c = x \<and> x = y then 20 + c
      else if c = x \<or> c = y then 10 + c
      else c)"
  apply (simp only: calculateScore_def Let_def assms)
  apply (simp only: nth_Cons_0 nth_Cons_numeral nth_Cons_Suc One_nat_def numeral_2_eq_2
                    diff_Suc_1 numeral_One pred_numeral_simps arith_simps)
  done

text \<open>
  Claim C5. For all ranks \<open>c\<close>, \<open>x\<close>, \<open>y\<close> in 1..10 the score does not change when the two
  community cards are swapped; three cards that are, in any order, 1, 9 and 10 score 21;
  three cards that are, in any order, 1, 2 and 10 score 22; and three cards that are, in
  any order, \<open>n\<close>, \<open>n + 1\<close> and \<open>n + 2\<close> with \<open>n\<close> in 1..8 score \<open>22 + n\<close>.
\<close>

theorem calculateScore_symmetric_and_straights:
  "(1 \<le> c \<and> c \<le> 10 \<and> 1 \<le> x \<and> x \<le> 10 \<and> 1 \<le> y \<and> y \<le> 10
      \<longrightarrow> calculateScore c x y = calculateScore c y x)
   \<and> (mset [c1, x1, y1] = mset [1, 9, 10] \<longrightarrow> calculateScore c1 x1 y1 = 21)
   \<and> (mset [c2, x2, y2] = mset [1, 2, 10] \<longrightarrow> calculateScore c2 x2 y2 = 22)
   \<and> (1 \<le> n \<and> n \<le> 8 \<and> mset [c3, x3, y3] = mset [n, n + 1, n + 2]
      \<longrightarrow> calculateScore c3 x3 y3 = 22 + n)"
proof (intro conjI impI)
  define s where "s = sort [c, y, x]"
  have sw: "sort [c, x, y] = s"
    unfolding s_def by (rule sort_swap)
  have sy: "sort [c, y, x] = s"
    unfolding s_def by (rule refl)
  have e1: "(c = x \<and> x = y) = (c = y \<and> y = x)"
    by auto
  have e2: "(c = x \<or> c = y) = (c = y \<or> c = x)"
    by auto
  show "calculateScore c x y = calculateScore c y x"
    unfolding calculateScore_def Let_def sw sy e1 e2 by (rule refl)
next
  assume "mset [c1, x1, y1] = mset [1, 9, 10]"
  then have "sort [c1, x1, y1] = [1, 9, 10]" by (rule sort_of_mset) simp
  then show "calculateScore c1 x1 y1 = 21"
    by (simp add: calculateScore_of_sorted)
next
  assume "mset [c2, x2, y2] = mset [1, 2, 10]"
  then have "sort [c2, x2, y2] = [1, 2, 10]" by (rule sort_of_mset) simp
  then show "calculateScore c2 x2 y2 = 22"
    by (simp add: calculateScore_of_sorted)
next
  assume a: "1 \<le> n \<and> n \<le> 8 \<and> mset [c3, x3, y3] = mset [n, n + 1, n + 2]"
  then have "sort [c3, x3, y3] = [n, n + 1, n + 2]" by (intro sort_of_mset) simp_all
  then show "calculateScore c3 x3 y3 = 22 + n"
    using a by (simp add: calculateScore_of_sorted)
qed

theorem calculateScore_symmetric_and_straights_witness:
  "calculateScore 5 5 3 = calculateScore 5 3 5 \<and> calculateScore 5 5 3 = 15
   \<and> calculateScore 10 1 9 = 21 \<and> calculateScore 2 10 1 = 22
   \<and> calculateScore 9 10 8 = 22 + 8"
  using calculateScore_symmetric_and_straights
          [of 5 5 3 10 1 9 2 10 1 8 9 10 8]
  by (simp add: calculateScore_def)

section \<open>What an agent sees\<close>




section \<open>Properties of the tournament\<close>

lemma range_py_nth:
  "0 \<le> j \<Longrightarrow> j < n \<Longrightarrow> length (range_py s (s + n)) = nat n \<and> range_py s (s + n) ! nat j = s + j"
  by (simp add: range_py_def)

text \<open>
  Claim C7, as amended. For every starting seed \<open>s\<close> and every offset \<open>j\<close> with
  \<open>0 \<le> j < num_games\<close>, the \<open>j\<close>-th game of the tournament is constructed with seed
  \<open>s + j\<close>, and A acts first in it if and only if the seed \<open>s + j\<close> is even.
\<close>

theorem tournament_game_seed_and_first:
  assumes "0 \<le> j" and "j < num_games t"
  shows "length (tournament_games Random t) = nat (num_games t)
         \<and> tournament_games Random t ! nat j
             = IPGame_init Random (seed_t t + j) ((seed_t t + j) mod 2 = 0) 20 1 100000
         \<and> seed (tournament_games Random t ! nat j) = seed_t t + j
         \<and> a_first (tournament_games Random t ! nat j) = ((seed_t t + j) mod 2 = 0)"
  using range_py_nth [OF assms, of "seed_t t"] assms
  by (simp add: tournament_games_def IPGame_init_def)

theorem tournament_game_seed_and_first_witness:
  "(0::int) \<le> 0 \<and> 0 < num_games (IPTournament_init 100 1)
   \<and> seed (tournament_games Random_unit (IPTournament_init 100 1) ! nat 0) = 1 + 0
   \<and> a_first (tournament_games Random_unit (IPTournament_init 100 1) ! nat 0)
       = ((1 + 0) mod 2 = (0::int))"
proof -
  have h1: "(0::int) \<le> 0" by simp
  have h2: "0 < num_games (IPTournament_init 100 1)" by (simp add: IPTournament_init_def)
  show ?thesis
    using h2 tournament_game_seed_and_first [OF h1 h2, of Random_unit]
    by (simp add: IPTournament_init_def IPGame_init_def)
qed

text \<open>
  Claim C7 as stated says that A acts first if and only if the offset is even. With the
  default starting seed 1 the game at offset 0 has seed 1, and B acts first in it.
\<close>

theorem tournament_first_by_offset_counterexample:
  "seed (tournament_games Random_unit (IPTournament_init 100 1) ! 0) = 1
   \<and> \<not> a_first (tournament_games Random_unit (IPTournament_init 100 1) ! 0)
   \<and> \<not> (a_first (tournament_games Random_unit (IPTournament_init 100 1) ! 0)
          \<longleftrightarrow> (0::int) mod 2 = 0)"
  by code_simp

section \<open>Properties of one game\<close>

lemma playRound_max_length:
  "max_length (fst (playRound sample player_a player_b g w)) = max_length g"
proof -
  obtain cards r' where sm: "sample (rng g) (deck g) = (cards, r')"
    by (cases "sample (rng g) (deck g)")
  obtain e w' where bt:
    "betting player_a player_b (a_chips g) (b_chips g) cards (initial_round g) w = (e, w')"
    by (cases "betting player_a player_b (a_chips g) (b_chips g) cards (initial_round g) w")
  show ?thesis
    unfolding playRound_unfold [where sample = sample and g = g, OF sm bt]
    by (cases e) (simp_all add: fold_resolve_amount reveal_resolve_def Let_def)
qed

lemma game_loop_exit:
  "game_loop sample player_a player_b g w len = (g', w', len') \<Longrightarrow>
     \<not> (a_chips g' > 0 \<and> b_chips g' > 0 \<and> len' < max_length g')
     \<and> max_length g' = max_length g \<and> len \<le> len'
     \<and> (len' = len \<or> len' \<le> max_length g)"
proof (induction sample player_a player_b g w len rule: game_loop.induct)
  case (1 sample player_a player_b g w len)
  note eq = game_loop.simps [of sample player_a player_b g w len]
  show ?case
  proof (cases "a_chips g > 0 \<and> b_chips g > 0 \<and> len < max_length g")
    case False
    then show ?thesis using "1.prems" eq by auto
  next
    case True
    obtain g1 w1 where pr: "playRound sample player_a player_b g w = (g1, w1)"
      by (cases "playRound sample player_a player_b g w")
    have ml: "max_length g1 = max_length g"
      using playRound_max_length [of sample player_a player_b g w] pr by simp
    have "game_loop sample player_a player_b g1 w1 (len + 1) = (g', w', len')"
      using "1.prems" eq True pr by simp
    from "1.IH" [OF True pr [symmetric] this] ml True show ?thesis
      by auto
  qed
qed

lemma playGame_points:
  assumes "game_loop sample player_a player_b g w 0 = (g', w', len)"
  shows "playGame sample player_a player_b g w
           = (if len \<ge> max_length g then (0.5, 0.5)
              else if a_chips g' > 0 then (1, 0) else (0, 1), g', w')
         \<and> (len < max_length g \<longrightarrow> a_chips g' \<le> 0 \<or> b_chips g' \<le> 0)"
  using game_loop_exit [OF assms] assms
  by (auto simp: playGame_def)

text \<open>
  Claim C6, as amended. \<^verbatim>\<open>playGame\<close> returns (0.5, 0.5) exactly when the counter has
  reached \<^verbatim>\<open>max_length\<close> when the loop is left, whether or not a stack has fallen to
  0 or below in that last round. When the loop is left with the counter below
  \<^verbatim>\<open>max_length\<close>, some stack is 0 or below, and A receives 1.0 and B 0.0 if A's stack
  is above 0; otherwise B receives 1.0 and A 0.0.
\<close>

theorem playGame_result_by_counter:
  assumes "game_loop sample player_a player_b g w 0 = (g', w', len)"
  shows "(fst (playGame sample player_a player_b g w) = (0.5, 0.5) \<longleftrightarrow> len \<ge> max_length g)
         \<and> (len < max_length g \<longrightarrow>
               (a_chips g' \<le> 0 \<or> b_chips g' \<le> 0)
               \<and> fst (playGame sample player_a player_b g w)
                   = (if a_chips g' > 0 then (1, 0) else (0, 1)))
         \<and> snd (playGame sample player_a player_b g w) = (g', w')"
  using playGame_points [OF assms] by auto

theorem playGame_result_by_counter_witness:
  "game_loop (deal_fixed 3 7 4 5) (bet_const 20) (bet_const 20)
       (IPGame_init Random_unit 2 True 20 1 100000) () 0
     = ((IPGame_init Random_unit 2 True 20 1 100000)
          \<lparr>a_chips := 40, b_chips := 0, a_first := True\<rparr>, (), 1)
   \<and> fst (playGame (deal_fixed 3 7 4 5) (bet_const 20) (bet_const 20)
            (IPGame_init Random_unit 2 True 20 1 100000) ()) = (1, 0)
   \<and> \<not> fst (playGame (deal_fixed 3 7 4 5) (bet_const 20) (bet_const 20)
            (IPGame_init Random_unit 2 True 20 1 100000) ()) = (0.5, 0.5)"
proof -
  let ?g = "IPGame_init Random_unit 2 True 20 1 100000"
  have h: "game_loop (deal_fixed 3 7 4 5) (bet_const 20) (bet_const 20) ?g () 0
             = (?g\<lparr>a_chips := 40, b_chips := 0, a_first := True\<rparr>, (), 1)"
    by code_simp
  show ?thesis
    using h playGame_result_by_counter
              [where sample = "deal_fixed 3 7 4 5" and g = ?g, OF h]
    by (simp add: IPGame_init_def)
qed

text \<open>
  Claim C6 as stated says that a side that is eliminated loses, also when the
  elimination happens in the round with which the counter reaches \<^verbatim>\<open>max_length\<close>. The
  game below has the default 20 chips and blind 1, \<^verbatim>\<open>max_length = 1\<close>, and two agents
  that always propose 20. In its only round A goes all-in, B calls, and A wins the
  reveal: B is left with 0 chips, A has 40, and the result is (0.5, 0.5).
\<close>

theorem playGame_cap_round_counterexample:
  "playGame (deal_fixed 3 7 4 5) (bet_const 20) (bet_const 20)
       (IPGame_init Random_unit 2 True 20 1 1) ()
     = ((0.5, 0.5),
        (IPGame_init Random_unit 2 True 20 1 1)\<lparr>a_chips := 40, b_chips := 0, a_first := True\<rparr>,
        ())
   \<and> \<not> fst (playGame (deal_fixed 3 7 4 5) (bet_const 20) (bet_const 20)
            (IPGame_init Random_unit 2 True 20 1 1) ()) = (1, 0)"
  by code_simp

text \<open>
  The same game with any generator and any deal: the reveal moves 20 chips one way or
  the other, and the result is (0.5, 0.5).
\<close>

lemma playGame_cap_round_any_deal:
  "fst (playGame sample (bet_const 20) (bet_const 20) (IPGame_init Random 2 True 20 1 1) ())
     = (0.5, 0.5)
   \<and> (a_chips (fst (snd (playGame sample (bet_const 20) (bet_const 20)
                      (IPGame_init Random 2 True 20 1 1) ()))) = 0
        \<and> b_chips (fst (snd (playGame sample (bet_const 20) (bet_const 20)
                      (IPGame_init Random 2 True 20 1 1) ()))) = 40
      \<or> a_chips (fst (snd (playGame sample (bet_const 20) (bet_const 20)
                      (IPGame_init Random 2 True 20 1 1) ()))) = 40
        \<and> b_chips (fst (snd (playGame sample (bet_const 20) (bet_const 20)
                      (IPGame_init Random 2 True 20 1 1) ()))) = 0)"
proof -
  let ?g = "IPGame_init Random 2 True 20 1 1"
  let ?p = "bet_const 20"
  obtain cards r' where sm: "sample (rng ?g) (deck ?g) = (cards, r')"
    by (cases "sample (rng ?g) (deck ?g)")
  let ?r0 = "\<lparr>a_bet = 1, b_bet = 1, current_bet = 1, a_can_raise = True,
              b_can_raise = True, a_turn = True\<rparr>"
  let ?r1 = "\<lparr>a_bet = 20, b_bet = 1, current_bet = 20, a_can_raise = False,
              b_can_raise = True, a_turn = False\<rparr>"
  let ?r2 = "\<lparr>a_bet = 20, b_bet = 20, current_bet = 20, a_can_raise = False,
              b_can_raise = False, a_turn = True\<rparr>"
  have i: "initial_round ?g = ?r0" "a_chips ?g = 20" "b_chips ?g = 20" "max_length ?g = 1"
    by (simp_all add: initial_round_def IPGame_init_def)
  have p0: "propose ?p ?p 20 20 cards ?r0 () = (20, ())"
    by (simp add: propose_def bet_const_def)
  have p1: "propose ?p ?p 20 20 cards ?r1 () = (20, ())"
    by (simp add: propose_def bet_const_def)
  have s0: "raise_or_call ?r0 20 = ?r1"
    by (simp add: raise_or_call_def Let_def)
  have s1: "raise_or_call ?r1 20 = ?r2"
    by (simp add: raise_or_call_def Let_def)
  have b2: "betting ?p ?p 20 20 cards ?r2 () = (Reveal ?r2, ())"
    by (rule betting_no_flags) simp
  have b1: "betting ?p ?p 20 20 cards ?r1 () = (Reveal ?r2, ())"
    by (simp add: betting.simps [of ?p ?p 20 20 cards ?r1 "()"] p1 s1 b2)
  have b0: "betting ?p ?p (a_chips ?g) (b_chips ?g) cards (initial_round ?g) () = (Reveal ?r2, ())"
    unfolding i by (simp add: betting.simps [of ?p ?p 20 20 cards ?r0 "()"] p0 s0 b1)
  define g1 where "g1 = reveal_resolve cards ?r2 (?g\<lparr>rng := r'\<rparr>)"
  have pr: "playRound sample ?p ?p ?g () = (g1, ())"
    unfolding g1_def playRound_unfold [where sample = sample and g = ?g, OF sm b0] by simp
  have g1: "max_length g1 = 1"
           "(a_chips g1 = 0 \<and> b_chips g1 = 40) \<or> (a_chips g1 = 40 \<and> b_chips g1 = 0)"
    unfolding g1_def by (auto simp: reveal_resolve_def Let_def IPGame_init_def)
  have l1: "game_loop sample ?p ?p g1 () 1 = (g1, (), 1)"
    by (simp add: game_loop.simps [of sample ?p ?p g1 "()" 1] g1(1))
  have l0: "game_loop sample ?p ?p ?g () 0 = (g1, (), 1)"
    by (simp add: game_loop.simps [of sample ?p ?p ?g "()" 0] i pr l1)
  have "playGame sample ?p ?p ?g () = ((0.5, 0.5), g1, ())"
    by (simp add: playGame_def l0 g1(1))
  then show ?thesis
    using g1(2) by auto
qed

end
